theory Spec2Isabelle
  imports Complex_Main
begin

section \<open>Orthonormal polynomial bases by Simpson quadrature\<close>

text \<open>
  A shallow embedding of \<^verbatim>\<open>legendre_polynomials_normalized.py\<close>: the quadrature
  \<^verbatim>\<open>integration_simpson_sampled\<close>, the projector \<^verbatim>\<open>get_projection\<close> and the
  Gram-Schmidt builder \<^verbatim>\<open>legendre_polynomial_normalized\<close>.

  Numbers: a float64 is idealised to a \<^typ>\<open>real\<close> (no rounding, no overflow). numpy does
  not raise where IEEE arithmetic leaves the reals (a division by \<open>0.0\<close>, the square root
  of a negative number: a warning, and \<open>inf\<close> or \<open>nan\<close> entries); HOL's total \<open>/\<close> and
  \<open>sqrt\<close> return a real there, so a row that the model computes from a norm that is not
  positive stands for a row of non-finite floats. A Python \<open>int\<close> is an \<^typ>\<open>int\<close>.

  Arrays: numpy arrays are mutable and shared, and the quadrature scales its argument in
  place, so arrays live in an explicit store. The store holds every array that a statement
  of the source updates in place, hands to \<^verbatim>\<open>integration_simpson_sampled\<close> or reads
  by name inside a loop (\<open>BASE\<close>, \<open>projection\<close>, \<open>p_sum\<close>, \<open>wn\<close>, \<open>fx\<close> and the
  temporaries \<open>wn * ek\<close>, \<open>fx * ek\<close>, \<open>np.power(wn, 2)\<close>, \<open>np.ones_like(xx)\<close>);
  a right-hand side that is consumed at once, the grid \<open>xx\<close> and \<open>e1\<close> are values.
  A two-dimensional array is the list of the addresses of its rows together with its
  number of columns: the source reaches \<open>BASE\<close> only through \<open>BASE.shape\<close> and the
  row views \<open>BASE[k, :]\<close>, and a row view is the address of that row.
\<close>

subsection \<open>Errors and the store\<close>

datatype py_error = ZeroDivisionError | ValueError | IndexError

type_synonym addr = nat

type_synonym heap = "real list list"

record ndarray2 =
  rows :: "addr list"
  ncols :: nat

definition alloc :: "real list \<Rightarrow> heap \<Rightarrow> addr \<times> heap" where
  "alloc xs s = (length s, s @ [xs])"

text \<open>\<^verbatim>\<open>np.zeros((m, n))\<close>: \<open>m\<close> fresh rows of \<open>n\<close> zeros.\<close>

definition zeros2 :: "nat \<Rightarrow> nat \<Rightarrow> heap \<Rightarrow> ndarray2 \<times> heap" where
  "zeros2 m n s =
     (\<lparr>rows = [length s ..< length s + m], ncols = n\<rparr>, s @ replicate m (replicate n 0))"

text \<open>The contents of a two-dimensional array in a store.\<close>

definition matrix_of :: "heap \<Rightarrow> ndarray2 \<Rightarrow> real list list" where
  "matrix_of s B = map (\<lambda>r. s ! r) (rows B)"

subsection \<open>numpy operations\<close>

text \<open>
  \<^verbatim>\<open>np.linspace(a, b, N)\<close> for \<open>N \<ge> 0\<close>: \<open>a + i * step\<close> with
  \<open>step = (b - a) / (N - 1)\<close>; one sample is \<open>[a]\<close>, none is the empty array.
\<close>

definition linspace :: "real \<Rightarrow> real \<Rightarrow> nat \<Rightarrow> real list" where
  "linspace a b N =
     (if N = 1 then [a]
      else map (\<lambda>i. a + real i * ((b - a) / real (N - 1))) [0..<N])"

text \<open>
  \<^verbatim>\<open>xs[start:-1:2] *= c\<close> for \<open>start \<ge> 0\<close>: the indices \<open>start, start + 2, \<dots>\<close>
  below \<open>len(xs) - 1\<close> are scaled, the others keep their value.
\<close>

definition scale_slice :: "nat \<Rightarrow> real \<Rightarrow> real list \<Rightarrow> real list" where
  "scale_slice start c xs =
     map (\<lambda>i. if start \<le> i \<and> i < length xs - 1 \<and> (i - start) mod 2 = 0
              then xs ! i * c else xs ! i) [0..<length xs]"

subsection \<open>The quadrature\<close>

text \<open>
  \<^verbatim>\<open>
  def integration_simpson_sampled(a, b, fx, N):
      h = (b - a) / N
      fx[1:-1:2] *= 4
      fx[2:-1:2] *= 2
      return (h / 3) * np.sum(fx)
  \<close>
  \<open>fx\<close> is the address of the samples; the result is the number returned and the store
  after the two in-place scalings. \<open>(b - a) / N\<close> on a Python float and the int \<open>0\<close>
  raises, before the samples are touched.
\<close>

definition integration_simpson_sampled ::
  "real \<Rightarrow> real \<Rightarrow> addr \<Rightarrow> int \<Rightarrow> heap \<Rightarrow> py_error + (real \<times> heap)" where
  "integration_simpson_sampled a b fx N s =
     (if N = 0 then Inl ZeroDivisionError
      else
        let h = (b - a) / real_of_int N;
            s1 = s[fx := scale_slice 1 4 (s ! fx)];
            s2 = s1[fx := scale_slice 2 2 (s1 ! fx)]
        in Inr ((h / 3) * sum_list (s2 ! fx), s2))"

subsection \<open>The projector\<close>

text \<open>
  The loop that both \<^verbatim>\<open>get_projection\<close> (lines 54 to 57) and the builder (lines 91
  to 94) run, over the row indices \<open>ks\<close>:
  \<^verbatim>\<open>
  for k in ks:
      ek = BASE[k, :]
      acc += integration_simpson_sampled(a, b, v * ek, N) * ek
  \<close>
  with \<open>acc, v\<close> being \<open>projection, fx\<close> in the projector and \<open>p_sum, wn\<close> in the
  builder. \<open>v * ek\<close> is a fresh array, and it is the array that the quadrature scales.
\<close>

fun accumulate_projections ::
  "real \<Rightarrow> real \<Rightarrow> int \<Rightarrow> addr \<Rightarrow> addr \<Rightarrow> addr list \<Rightarrow> nat list \<Rightarrow> heap \<Rightarrow> py_error + heap" where
  "accumulate_projections a b N v acc BASE_rows [] s = Inr s"
| "accumulate_projections a b N v acc BASE_rows (k # ks) s =
     (let ek = BASE_rows ! k;
          (tmp, s1) = alloc (map2 (*) (s ! v) (s ! ek)) s
      in case integration_simpson_sampled a b tmp N s1 of
           Inl e \<Rightarrow> Inl e
         | Inr (c, s2) \<Rightarrow>
             accumulate_projections a b N v acc BASE_rows ks
               (s2[acc := map2 (+) (s2 ! acc) (map (\<lambda>y. c * y) (s2 ! ek))]))"

text \<open>
  \<^verbatim>\<open>
  def get_projection(BASE, f, a, b):
      N = BASE.shape[1]
      xx = np.linspace(a, b, N)
      fx = f(xx)
      projection = np.zeros_like(xx)
      for k in range(BASE.shape[0]):
          ek = BASE[k, :]
          projection += integration_simpson_sampled(a, b, fx * ek, N) * ek
      return projection
  \<close>
  \<open>f\<close> is a function of one real, applied to every grid point.
\<close>

definition get_projection ::
  "ndarray2 \<Rightarrow> (real \<Rightarrow> real) \<Rightarrow> real \<Rightarrow> real \<Rightarrow> heap \<Rightarrow> py_error + (addr \<times> heap)" where
  "get_projection BASE f a b s =
     (let N = ncols BASE;
          xx = linspace a b N;
          (fx, s1) = alloc (map f xx) s;
          (projection, s2) = alloc (replicate (length xx) 0) s1
      in case accumulate_projections a b (int N) fx projection (rows BASE)
                [0..<length (rows BASE)] s2 of
           Inl e \<Rightarrow> Inl e
         | Inr s3 \<Rightarrow> Inr (projection, s3))"

subsection \<open>The builder\<close>

text \<open>Lines 80 and 81: \<^verbatim>\<open>for n in range(number_functions): BASE[n, :] = np.power(xx, n)\<close>.\<close>

fun seed_monomials :: "real list \<Rightarrow> addr list \<Rightarrow> nat list \<Rightarrow> heap \<Rightarrow> heap" where
  "seed_monomials xx BASE_rows [] s = s"
| "seed_monomials xx BASE_rows (n # ns) s =
     seed_monomials xx BASE_rows ns (s[BASE_rows ! n := map (\<lambda>x. x ^ n) xx])"

text \<open>
  Lines 87 to 98, over the degrees \<open>ns\<close>:
  \<^verbatim>\<open>
  for n in ns:
      wn = np.power(xx, n)
      p_sum = np.zeros_like(wn)
      for k in range(0, n):
          ek = BASE[k, :]
          p_sum += integration_simpson_sampled(a, b, wn * ek, N) * ek
      wn -= p_sum
      norm = integration_simpson_sampled(a, b, np.power(wn, 2), N)
      BASE[n, :] = wn / np.sqrt(norm)
  \<close>
\<close>

fun gram_schmidt_loop ::
  "real \<Rightarrow> real \<Rightarrow> int \<Rightarrow> real list \<Rightarrow> addr list \<Rightarrow> nat list \<Rightarrow> heap \<Rightarrow> py_error + heap" where
  "gram_schmidt_loop a b N xx BASE_rows [] s = Inr s"
| "gram_schmidt_loop a b N xx BASE_rows (n # ns) s =
     (let (wn, s1) = alloc (map (\<lambda>x. x ^ n) xx) s;
          (p_sum, s2) = alloc (replicate (length (s1 ! wn)) 0) s1
      in case accumulate_projections a b N wn p_sum BASE_rows [0..<n] s2 of
           Inl e \<Rightarrow> Inl e
         | Inr s3 \<Rightarrow>
             let s4 = s3[wn := map2 (-) (s3 ! wn) (s3 ! p_sum)];
                 (sq, s5) = alloc (map (\<lambda>x. x ^ 2) (s4 ! wn)) s4
             in case integration_simpson_sampled a b sq N s5 of
                  Inl e \<Rightarrow> Inl e
                | Inr (norm_wn, s6) \<Rightarrow>
                    gram_schmidt_loop a b N xx BASE_rows ns
                      (s6[BASE_rows ! n := map (\<lambda>x. x / sqrt norm_wn) (s6 ! wn)]))"

text \<open>
  Lines 83 to 100, the rest of the function once \<open>BASE\<close> is allocated and seeded:
  \<^verbatim>\<open>
      norm_first_poly = integration_simpson_sampled(a, b, np.ones_like(xx), N)
      e1 = np.ones_like(xx) / np.sqrt(norm_first_poly)
      BASE[0, :] = e1
      for n in range(1, number_functions): ...
      return BASE
  \<close>
  \<^verbatim>\<open>BASE[0, :]\<close> on an array of no rows is an IndexError.
\<close>

definition orthonormalise_rows ::
  "nat \<Rightarrow> int \<Rightarrow> real \<Rightarrow> real \<Rightarrow> real list \<Rightarrow> ndarray2 \<Rightarrow> heap \<Rightarrow> py_error + (ndarray2 \<times> heap)" where
  "orthonormalise_rows number_functions N a b xx BASE s =
     (let (ones, s1) = alloc (replicate (length xx) 1) s
      in case integration_simpson_sampled a b ones N s1 of
           Inl e \<Rightarrow> Inl e
         | Inr (norm_first_poly, s2) \<Rightarrow>
             let e1 = map (\<lambda>x. x / sqrt norm_first_poly) (replicate (length xx) 1)
             in if rows BASE = [] then Inl IndexError
                else
                  case gram_schmidt_loop a b N xx (rows BASE) [1..<number_functions]
                         (s2[rows BASE ! 0 := e1]) of
                    Inl e \<Rightarrow> Inl e
                  | Inr s3 \<Rightarrow> Inr (BASE, s3))"

text \<open>
  \<^verbatim>\<open>
  def legendre_polynomial_normalized(number_functions, N, a, b):
      xx = np.linspace(a, b, N)
      BASE = np.zeros((number_functions, N))
      for n in range(number_functions):
          BASE[n, :] = np.power(xx, n)
      ...
  \<close>
  \<^verbatim>\<open>np.linspace\<close> and \<^verbatim>\<open>np.zeros\<close> reject a negative size with a ValueError.
\<close>

definition legendre_polynomial_normalized ::
  "int \<Rightarrow> int \<Rightarrow> real \<Rightarrow> real \<Rightarrow> heap \<Rightarrow> py_error + (ndarray2 \<times> heap)" where
  "legendre_polynomial_normalized number_functions N a b s =
     (if N < 0 then Inl ValueError
      else if number_functions < 0 then Inl ValueError
      else
        let xx = linspace a b (nat N);
            (BASE, s1) = zeros2 (nat number_functions) (nat N) s;
            s2 = seed_monomials xx (rows BASE) [0..<nat number_functions] s1
        in orthonormalise_rows (nat number_functions) N a b xx BASE s2)"

text \<open>
  The variant program of C10: the same function without lines 80 and 81, so that the rows
  of \<open>BASE\<close> still hold the zeros of \<^verbatim>\<open>np.zeros\<close> when line 83 is reached.
\<close>

definition legendre_polynomial_normalized_unseeded ::
  "int \<Rightarrow> int \<Rightarrow> real \<Rightarrow> real \<Rightarrow> heap \<Rightarrow> py_error + (ndarray2 \<times> heap)" where
  "legendre_polynomial_normalized_unseeded number_functions N a b s =
     (if N < 0 then Inl ValueError
      else if number_functions < 0 then Inl ValueError
      else
        let xx = linspace a b (nat N);
            (BASE, s1) = zeros2 (nat number_functions) (nat N) s
        in orthonormalise_rows (nat number_functions) N a b xx BASE s1)"

subsection \<open>The quantities the statements speak of\<close>

text \<open>
  Simpson's weights on \<open>L\<close> samples, as the specification words them: 1 at the two
  endpoints, 4 at the odd interior positions, 2 at the even interior positions.
\<close>

definition simpson_weight :: "nat \<Rightarrow> nat \<Rightarrow> real" where
  "simpson_weight L i = (if i = 0 \<or> i = L - 1 then 1 else if odd i then 4 else 2)"

text \<open>The samples after lines 31 and 32, and the number that line 33 returns for them.\<close>

definition simpson_scaled :: "real list \<Rightarrow> real list" where
  "simpson_scaled xs = scale_slice 2 2 (scale_slice 1 4 xs)"

definition simpson_result :: "real \<Rightarrow> real \<Rightarrow> real list \<Rightarrow> int \<Rightarrow> real" where
  "simpson_result a b xs N = ((b - a) / real_of_int N / 3) * sum_list (simpson_scaled xs)"

text \<open>One round of the accumulation loop on values: \<open>acc + integrate(v * e) * e\<close>.\<close>

definition project_step ::
  "real \<Rightarrow> real \<Rightarrow> int \<Rightarrow> real list \<Rightarrow> real list \<Rightarrow> real list \<Rightarrow> real list" where
  "project_step a b N v acc e =
     map2 (+) acc (map (\<lambda>y. simpson_result a b (map2 (*) v e) N * y) e)"

text \<open>
  Lines 88 to 96 on values: the monomial of degree \<open>n\<close> minus its accumulated projections
  on the rows \<open>es\<close>; and line 98, a vector divided by the square root of the number that the
  quadrature returns for its square.
\<close>

definition orthogonalised ::
  "real \<Rightarrow> real \<Rightarrow> int \<Rightarrow> real list \<Rightarrow> real list list \<Rightarrow> nat \<Rightarrow> real list" where
  "orthogonalised a b N xx es n =
     (let wn = map (\<lambda>x. x ^ n) xx
      in map2 (-) wn (foldl (project_step a b N wn) (replicate (length wn) 0) es))"

definition normalised :: "real \<Rightarrow> real \<Rightarrow> int \<Rightarrow> real list \<Rightarrow> real list" where
  "normalised a b N w = map (\<lambda>x. x / sqrt (simpson_result a b (map (\<lambda>x. x ^ 2) w) N)) w"

text \<open>Line 84 on values: the constant row \<open>e1\<close>.\<close>

definition first_row :: "real \<Rightarrow> real \<Rightarrow> int \<Rightarrow> real list \<Rightarrow> real list" where
  "first_row a b N xx =
     map (\<lambda>x. x / sqrt (simpson_result a b (replicate (length xx) 1) N)) (replicate (length xx) 1)"

text \<open>The rows of \<open>BASE\<close> after the degrees \<open>ns\<close>, from the rows \<open>M\<close> before them.\<close>

fun gs_rows ::
  "real \<Rightarrow> real \<Rightarrow> int \<Rightarrow> real list \<Rightarrow> real list list \<Rightarrow> nat list \<Rightarrow> real list list" where
  "gs_rows a b N xx M [] = M"
| "gs_rows a b N xx M (n # ns) =
     gs_rows a b N xx (M[n := normalised a b N (orthogonalised a b N xx (take n M) n)]) ns"

text \<open>
  The working vector \<open>w\<^sub>n\<close> as the specification words it: the sampled monomial \<open>x\<^sup>n\<close>
  minus the sum over the earlier rows \<open>e\<^sub>k\<close> of \<open>integrate(a, b, x\<^sup>n * e\<^sub>k, N)\<close> times
  \<open>e\<^sub>k\<close>.
\<close>

definition orthogonal_residual ::
  "real \<Rightarrow> real \<Rightarrow> int \<Rightarrow> real list \<Rightarrow> real list list \<Rightarrow> nat \<Rightarrow> real list" where
  "orthogonal_residual a b N xx es n =
     map (\<lambda>i. xx ! i ^ n -
            (\<Sum>k<length es. simpson_result a b (map2 (*) (map (\<lambda>x. x ^ n) xx) (es ! k)) N
                              * es ! k ! i))
         [0..<length xx]"

section \<open>Properties of the quadrature\<close>

lemma alloc_eq: "alloc xs s = (length s, s @ [xs])"
  by (simp add: alloc_def)

lemma length_scale_slice [simp]: "length (scale_slice st c xs) = length xs"
  by (simp add: scale_slice_def)

lemma nth_scale_slice:
  "i < length xs \<Longrightarrow> scale_slice st c xs ! i =
     (if st \<le> i \<and> i < length xs - 1 \<and> (i - st) mod 2 = 0 then xs ! i * c else xs ! i)"
  by (simp add: scale_slice_def)

lemma length_simpson_scaled [simp]: "length (simpson_scaled xs) = length xs"
  by (simp add: simpson_scaled_def)

lemma nth_simpson_scaled:
  "i < length xs \<Longrightarrow> simpson_scaled xs ! i = simpson_weight (length xs) i * xs ! i"
  unfolding simpson_scaled_def
  by (simp add: nth_scale_slice simpson_weight_def) auto

text \<open>A call with \<open>N \<noteq> 0\<close> returns, and this is what it returns and what it leaves.\<close>

lemma integration_simpson_sampled_eq:
  assumes "N \<noteq> 0" and "fx < length s"
  shows "integration_simpson_sampled a b fx N s =
           Inr (simpson_result a b (s ! fx) N, s[fx := simpson_scaled (s ! fx)])"
  using assms
  by (simp add: integration_simpson_sampled_def simpson_result_def simpson_scaled_def Let_def)

text \<open>
  The weights are Simpson's for every length of the samples; the step is \<open>(b - a) / N\<close>.
\<close>

lemma simpson_result_sum:
  "simpson_result a b xs N =
     ((b - a) / real_of_int N / 3) * (\<Sum>i<length xs. simpson_weight (length xs) i * xs ! i)"
proof -
  have "sum_list (simpson_scaled xs) = (\<Sum>i<length xs. simpson_scaled xs ! i)"
    by (simp add: sum_list_sum_nth atLeast0LessThan)
  also have "\<dots> = (\<Sum>i<length xs. simpson_weight (length xs) i * xs ! i)"
    by (rule sum.cong) (simp_all add: nth_simpson_scaled)
  finally show ?thesis by (simp add: simpson_result_def)
qed

text \<open>
  On an odd number \<open>N \<ge> 3\<close> of samples of the constant 1 the weights add up to
  \<open>3 (N - 1)\<close>, and the quadrature called with that \<open>N\<close> returns \<open>(b - a) (N - 1) / N\<close>.
\<close>

lemma sum_interior_weights:
  "(\<Sum>i = Suc 0..<Suc (Suc (2 * k)). (if odd i then 4 else 2 :: real)) = 6 * real k + 4"
  by (induction k) simp_all

lemma sum_simpson_weight_odd:
  "(\<Sum>i<Suc (Suc (Suc (2 * k))). simpson_weight (Suc (Suc (Suc (2 * k)))) i) = 6 * real k + 6"
proof -
  let ?L = "Suc (Suc (Suc (2 * k)))"
  let ?A = "{Suc 0..<Suc (Suc (2 * k))}"
  have split: "{..<?L} = insert 0 (insert (Suc (Suc (2 * k))) ?A)"
    by auto
  have mid: "(\<Sum>i\<in>?A. simpson_weight ?L i) = (\<Sum>i\<in>?A. (if odd i then 4 else 2 :: real))"
    by (rule sum.cong) (auto simp: simpson_weight_def)
  have "(\<Sum>i<?L. simpson_weight ?L i)
          = simpson_weight ?L 0 + (simpson_weight ?L (Suc (Suc (2 * k))) + (\<Sum>i\<in>?A. simpson_weight ?L i))"
    unfolding split by (subst sum.insert, simp, simp, subst sum.insert, simp, simp, rule refl)
  also have "\<dots> = 1 + (1 + (6 * real k + 4))"
    unfolding mid sum_interior_weights by (simp add: simpson_weight_def)
  finally show ?thesis by simp
qed

lemma simpson_result_ones:
  assumes "odd N" and "3 \<le> N"
  shows "simpson_result a b (replicate N 1) (int N) = (b - a) * (real N - 1) / real N"
proof -
  from assms(1) obtain j where j: "N = 2 * j + 1" by (auto elim: oddE)
  define k where "k = j - 1"
  have N: "N = Suc (Suc (Suc (2 * k)))" using j assms(2) by (simp add: k_def)
  have "(\<Sum>i<N. simpson_weight N i * replicate N (1 :: real) ! i) = (\<Sum>i<N. simpson_weight N i)"
    by (rule sum.cong) simp_all
  also have "\<dots> = 6 * real k + 6"
    unfolding N by (rule sum_simpson_weight_odd)
  finally have "simpson_result a b (replicate N 1) (int N) = (b - a) / real N / 3 * (6 * real k + 6)"
    by (simp add: simpson_result_sum)
  also have "\<dots> = (b - a) * (real N - 1) / real N"
    by (simp add: N field_simps)
  finally show ?thesis .
qed

text \<open>
  C1. On \<open>N\<close> samples the estimate is \<open>h / 3\<close> times the weighted sum with
  \<open>h = (b - a) / (N - 1)\<close>. The code divides by \<open>N\<close>: on the five samples of the constant
  1 over \<open>[0, 1]\<close> it returns \<open>4 / 5\<close>, where the stated formula gives 1.
\<close>

theorem simpson_step_off_by_one:
  "integration_simpson_sampled 0 1 0 5 [[1, 1, 1, 1, 1]] = Inr (4 / 5, [[1, 4, 2, 4, 1]])
   \<and> ((1 - 0) / real (5 - 1) / 3) * (\<Sum>i<5. simpson_weight 5 i * [1, 1, 1, 1, 1] ! i) = (1 :: real)"
  by code_simp

text \<open>
  C2. The integral of \<open>x\<^sup>2\<close> over \<open>[0, 1]\<close> on five grid points is \<open>1 / 3\<close> to within
  \<open>10\<^sup>-\<^sup>9\<close>. The code returns \<open>4 / 15\<close>, which is \<open>1 / 15\<close> away.
\<close>

theorem simpson_square_not_third:
  "integration_simpson_sampled 0 1 0 5 [map (\<lambda>x. x ^ 2) (linspace 0 1 5)]
     = Inr (4 / 15, [[0, 1 / 4, 1 / 2, 9 / 4, 1]])
   \<and> \<bar>4 / 15 - 1 / 3\<bar> > (1 / 10 ^ 9 :: real)"
  by (simp add: integration_simpson_sampled_def scale_slice_def linspace_def Let_def upt_rec
         power2_eq_square)

text \<open>
  C3. The quadrature leaves its samples unchanged. It does not: the call on \<open>[1, 1, 1]\<close>
  leaves \<open>[1, 4, 1]\<close> in the caller's array.
\<close>

theorem simpson_mutates_samples:
  "integration_simpson_sampled 0 3 0 3 [[1, 1, 1]] = Inr (2, [[1, 4, 1]])
   \<and> [[1, 4, 1]] ! 0 \<noteq> [[1, 1, 1 :: real]] ! 0"
  by (simp add: integration_simpson_sampled_def scale_slice_def Let_def upt_rec)

text \<open>
  C3, as the code has it. A call that returns has multiplied every sample by its Simpson
  weight, in place: the endpoints keep their values, the interior samples are scaled by 4
  and by 2. The number of samples and every other array of the store are unchanged.
\<close>

theorem simpson_scales_in_place:
  assumes "N \<noteq> 0" and "fx < length s"
  shows "\<exists>v s'. integration_simpson_sampled a b fx N s = Inr (v, s')
           \<and> length s' = length s
           \<and> length (s' ! fx) = length (s ! fx)
           \<and> (\<forall>i<length (s ! fx). s' ! fx ! i = simpson_weight (length (s ! fx)) i * s ! fx ! i)
           \<and> (\<forall>p. p \<noteq> fx \<longrightarrow> s' ! p = s ! p)"
  using assms by (simp add: integration_simpson_sampled_eq nth_simpson_scaled)

theorem simpson_scales_in_place_witness:
  "\<exists>v s'. integration_simpson_sampled 0 3 0 3 [[1, 1, 1]] = Inr (v, s')
           \<and> length s' = length [[1, 1, 1 :: real]]
           \<and> length (s' ! 0) = length ([[1, 1, 1 :: real]] ! 0)
           \<and> (\<forall>i<length ([[1, 1, 1 :: real]] ! 0).
                 s' ! 0 ! i = simpson_weight (length ([[1, 1, 1 :: real]] ! 0)) i * [[1, 1, 1]] ! 0 ! i)
           \<and> (\<forall>p. p \<noteq> 0 \<longrightarrow> s' ! p = [[1, 1, 1]] ! p)"
  by (rule simpson_scales_in_place) simp_all

text \<open>
  C8. A call with \<open>N < 3\<close>, or with an odd number of sub-intervals, is rejected at entry.
  It is not: with \<open>N = 2\<close> the code returns a number.
\<close>

theorem simpson_accepts_two:
  "integration_simpson_sampled 0 1 0 2 [[1, 1]] = Inr (1 / 3, [[1, 1]])"
  by (simp add: integration_simpson_sampled_def scale_slice_def Let_def upt_rec)

text \<open>
  C8, as the code has it. The quadrature does not check \<open>N\<close>: a call with \<open>N < 3\<close> or with
  an even \<open>N\<close> (an odd number of sub-intervals) is not rejected. For every such \<open>N\<close> other
  than 0 that a float can hold, it returns, as for any other \<open>N\<close>, the third of the step of
  line 30 times the sum of the samples under Simpson's weights. (A Python int beyond the
  range of a float makes line 30 raise an OverflowError, which reals do not have; hence the
  bound on \<open>N\<close>.)
\<close>

theorem simpson_unchecked_N:
  assumes "N < 3 \<or> even N" and "N \<noteq> 0" and "\<bar>N\<bar> \<le> 2 ^ 1023" and "fx < length s"
  shows "\<exists>s'. integration_simpson_sampled a b fx N s
           = Inr ((b - a) / real_of_int N / 3
                    * (\<Sum>i<length (s ! fx). simpson_weight (length (s ! fx)) i * s ! fx ! i),
                  s')"
  using assms(2,4) by (simp add: integration_simpson_sampled_eq simpson_result_sum)

theorem simpson_unchecked_N_witness:
  "(\<exists>s'. integration_simpson_sampled 0 1 0 2 [[1, 1]]
           = Inr ((1 - 0) / real_of_int 2 / 3
                    * (\<Sum>i<length ([[1, 1 :: real]] ! 0).
                         simpson_weight (length ([[1, 1 :: real]] ! 0)) i * [[1, 1]] ! 0 ! i),
                  s'))
   \<and> (\<exists>s'. integration_simpson_sampled 0 1 0 4 [[1, 1, 1, 1]]
           = Inr ((1 - 0) / real_of_int 4 / 3
                    * (\<Sum>i<length ([[1, 1, 1, 1 :: real]] ! 0).
                         simpson_weight (length ([[1, 1, 1, 1 :: real]] ! 0)) i * [[1, 1, 1, 1]] ! 0 ! i),
                  s'))"
proof
  show "\<exists>s'. integration_simpson_sampled 0 1 0 2 [[1, 1]]
           = Inr ((1 - 0) / real_of_int 2 / 3
                    * (\<Sum>i<length ([[1, 1 :: real]] ! 0).
                         simpson_weight (length ([[1, 1 :: real]] ! 0)) i * [[1, 1]] ! 0 ! i),
                  s')"
    by (rule simpson_unchecked_N) simp_all
  show "\<exists>s'. integration_simpson_sampled 0 1 0 4 [[1, 1, 1, 1]]
           = Inr ((1 - 0) / real_of_int 4 / 3
                    * (\<Sum>i<length ([[1, 1, 1, 1 :: real]] ! 0).
                         simpson_weight (length ([[1, 1, 1, 1 :: real]] ! 0)) i * [[1, 1, 1, 1]] ! 0 ! i),
                  s')"
    by (rule simpson_unchecked_N) simp_all
qed

section \<open>Properties of the projector\<close>

text \<open>
  The accumulation loop returns when \<open>N \<noteq> 0\<close>. It allocates one array in each round,
  writes to that array and to \<open>acc\<close>, and to nothing that the store held before.
\<close>

lemma accumulate_projections_ok:
  assumes "N \<noteq> 0" and "v < length s" and "acc < length s" and "acc \<noteq> v"
    and "\<forall>k\<in>set ks. k < length R \<and> R ! k < length s \<and> R ! k \<noteq> acc"
  shows "\<exists>s'. accumulate_projections a b N v acc R ks s = Inr s'
           \<and> length s' = length s + length ks
           \<and> (\<forall>p<length s. p \<noteq> acc \<longrightarrow> s' ! p = s ! p)
           \<and> s' ! acc = foldl (project_step a b N (s ! v)) (s ! acc) (map (\<lambda>k. s ! (R ! k)) ks)"
  using assms
proof (induction ks arbitrary: s)
  case Nil
  then show ?case by simp
next
  case (Cons k ks)
  define m where "m = map2 (*) (s ! v) (s ! (R ! k))"
  define s2 where "s2 = (s @ [m])[length s := simpson_scaled m]"
  define s3 where "s3 = s2[acc := project_step a b N (s ! v) (s ! acc) (s ! (R ! k))]"
  have ek: "R ! k < length s" "R ! k \<noteq> acc" using Cons.prems by auto
  have int: "integration_simpson_sampled a b (length s) N (s @ [m])
               = Inr (simpson_result a b m N, s2)"
    using Cons.prems(1) by (simp add: integration_simpson_sampled_eq s2_def)
  have s2_old: "s2 ! p = s ! p" if "p < length s" for p
    using that by (simp add: s2_def nth_append)
  have len3: "length s3 = Suc (length s)" by (simp add: s3_def s2_def)
  have s3_old: "s3 ! p = s ! p" if "p < length s" "p \<noteq> acc" for p
    using that by (simp add: s3_def s2_old)
  have s3_acc: "s3 ! acc = project_step a b N (s ! v) (s ! acc) (s ! (R ! k))"
    using Cons.prems(3) by (simp add: s3_def s2_def)
  have unfold: "accumulate_projections a b N v acc R (k # ks) s
                  = accumulate_projections a b N v acc R ks s3"
    using Cons.prems(3) ek
    by (simp add: alloc_eq int m_def [symmetric] s3_def s2_old project_step_def)
  have pre: "v < length s3" "acc < length s3"
    "\<forall>k\<in>set ks. k < length R \<and> R ! k < length s3 \<and> R ! k \<noteq> acc"
    using Cons.prems len3 by auto
  from Cons.IH [OF Cons.prems(1) pre(1,2) Cons.prems(4) pre(3)]
  obtain s' where s': "accumulate_projections a b N v acc R ks s3 = Inr s'"
    "length s' = length s3 + length ks"
    "\<forall>p<length s3. p \<noteq> acc \<longrightarrow> s' ! p = s3 ! p"
    "s' ! acc = foldl (project_step a b N (s3 ! v)) (s3 ! acc) (map (\<lambda>k. s3 ! (R ! k)) ks)"
    by blast
  have rows_eq: "map (\<lambda>k. s3 ! (R ! k)) ks = map (\<lambda>k. s ! (R ! k)) ks"
    using Cons.prems(5) by (auto simp: s3_old)
  have v_eq: "s3 ! v = s ! v"
    using Cons.prems(2,4) by (simp add: s3_old)
  have "\<forall>p<length s. p \<noteq> acc \<longrightarrow> s' ! p = s ! p"
    using s'(3) len3 by (simp add: s3_old)
  moreover have "s' ! acc = foldl (project_step a b N (s ! v)) (s ! acc)
                              (map (\<lambda>k. s ! (R ! k)) (k # ks))"
    using s'(4) by (simp add: rows_eq v_eq s3_acc)
  ultimately show ?case
    using unfold s'(1,2) len3 by simp
qed

lemma accumulate_projections_frame:
  assumes "accumulate_projections a b N v acc R ks s = Inr s'"
    and "v < length s" and "acc < length s" and "acc \<noteq> v"
    and "\<forall>k\<in>set ks. k < length R \<and> R ! k < length s \<and> R ! k \<noteq> acc"
  shows "\<forall>p<length s. p \<noteq> acc \<longrightarrow> s' ! p = s ! p"
proof (cases "N = 0")
  case True
  then show ?thesis
    using assms(1)
    by (cases ks) (simp_all add: integration_simpson_sampled_def alloc_eq)
next
  case False
  from accumulate_projections_ok [OF False assms(2-5), of a b] assms(1)
  show ?thesis by auto
qed

lemma length_project_step [simp]:
  "length (project_step a b N v acc e) = min (length acc) (length e)"
  by (simp add: project_step_def)

lemma nth_project_step:
  "i < length acc \<Longrightarrow> i < length e \<Longrightarrow>
   project_step a b N v acc e ! i = acc ! i + simpson_result a b (map2 (*) v e) N * e ! i"
  by (simp add: project_step_def)

lemma foldl_project_step:
  assumes "\<forall>e\<in>set es. length e = L" and "length acc = L"
  shows "foldl (project_step a b N v) acc es =
           map (\<lambda>i. acc ! i + (\<Sum>k<length es. simpson_result a b (map2 (*) v (es ! k)) N * es ! k ! i))
               [0..<L]"
  using assms
proof (induction es rule: rev_induct)
  case Nil
  then show ?case by (auto simp: map_nth)
next
  case (snoc e es)
  let ?c = "\<lambda>e. simpson_result a b (map2 (*) v e) N"
  have len_e: "length e = L" using snoc.prems by simp
  have IH: "foldl (project_step a b N v) acc es =
              map (\<lambda>i. acc ! i + (\<Sum>k<length es. ?c (es ! k) * es ! k ! i)) [0..<L]"
    using snoc by simp
  have sums: "(\<Sum>k<length es. ?c ((es @ [e]) ! k) * (es @ [e]) ! k ! i)
                = (\<Sum>k<length es. ?c (es ! k) * es ! k ! i)" for i
    by (rule sum.cong) (simp_all add: nth_append)
  show ?case
  proof (rule nth_equalityI)
    show "length (foldl (project_step a b N v) acc (es @ [e]))
            = length (map (\<lambda>i. acc ! i + (\<Sum>k<length (es @ [e]).
                 ?c ((es @ [e]) ! k) * (es @ [e]) ! k ! i)) [0..<L])"
      by (simp add: IH len_e)
  next
    fix i assume "i < length (foldl (project_step a b N v) acc (es @ [e]))"
    then have i: "i < L" by (simp add: IH len_e)
    then show "foldl (project_step a b N v) acc (es @ [e]) ! i
            = map (\<lambda>i. acc ! i + (\<Sum>k<length (es @ [e]).
                 ?c ((es @ [e]) ! k) * (es @ [e]) ! k ! i)) [0..<L] ! i"
      by (simp add: IH len_e nth_project_step sums)
  qed
qed

lemma map_nth_upt: "map (\<lambda>k. f (R ! k)) [0..<length R] = map f R"
  by (rule nth_equalityI) simp_all

text \<open>
  C6. On a matrix of \<open>K\<close> rows of length \<open>N\<close> the projector returns the vector of length
  \<open>N\<close> that is the sum over \<open>k < K\<close> of \<open>c\<^sub>k e\<^sub>k\<close>, with \<open>e\<^sub>k\<close> the row \<open>k\<close>,
  \<open>c\<^sub>k\<close> the number that the quadrature returns for \<open>fx * e\<^sub>k\<close>, and \<open>fx\<close> the values
  of \<open>f\<close> on the \<open>N\<close> grid points of \<open>[a, b]\<close>; the sum starts from zero.
\<close>

theorem get_projection_sum:
  assumes "0 < ncols BASE"
    and "\<forall>r\<in>set (rows BASE). r < length s \<and> length (s ! r) = ncols BASE"
  shows "\<exists>projection s'. get_projection BASE f a b s = Inr (projection, s')
           \<and> s' ! projection =
               map (\<lambda>i. \<Sum>k<length (rows BASE).
                      simpson_result a b
                        (map2 (*) (map f (linspace a b (ncols BASE))) (s ! (rows BASE ! k)))
                        (int (ncols BASE))
                      * s ! (rows BASE ! k) ! i)
                   [0..<ncols BASE]"
proof -
  define N where "N = ncols BASE"
  define R where "R = rows BASE"
  define xx where "xx = linspace a b N"
  define s2 where "s2 = s @ [map f xx] @ [replicate (length xx) 0]"
  have len_xx: "length xx = N" by (simp add: xx_def linspace_def)
  have N0: "int N \<noteq> 0" using assms(1) by (simp add: N_def)
  have valid: "R ! k < length s" if "k < length R" for k
    using assms(2) nth_mem [of k "rows BASE"] that by (auto simp: R_def)
  have rowsR: "\<forall>k\<in>set [0..<length R]. k < length R \<and> R ! k < length s2 \<and> R ! k \<noteq> Suc (length s)"
    using valid by (fastforce simp: s2_def)
  have "\<exists>s'. accumulate_projections a b (int N) (length s) (Suc (length s)) R [0..<length R] s2 = Inr s'
          \<and> length s' = length s2 + length [0..<length R]
          \<and> (\<forall>p<length s2. p \<noteq> Suc (length s) \<longrightarrow> s' ! p = s2 ! p)
          \<and> s' ! Suc (length s) = foldl (project_step a b (int N) (s2 ! length s)) (s2 ! Suc (length s))
                             (map (\<lambda>k. s2 ! (R ! k)) [0..<length R])"
    by (rule accumulate_projections_ok [OF N0 _ _ _ rowsR]) (simp_all add: s2_def)
  then obtain s' where s': "accumulate_projections a b (int N) (length s) (Suc (length s)) R [0..<length R] s2 = Inr s'"
    "s' ! Suc (length s) = foldl (project_step a b (int N) (s2 ! length s)) (s2 ! Suc (length s))
                             (map (\<lambda>k. s2 ! (R ! k)) [0..<length R])"
    by blast
  have old: "map (\<lambda>k. s2 ! (R ! k)) [0..<length R] = map ((!) s) R"
    using valid by (auto simp: s2_def nth_append intro!: nth_equalityI)
  have v: "s2 ! length s = map f xx" by (simp add: s2_def)
  have z: "s2 ! Suc (length s) = replicate N 0"
    by (simp add: s2_def nth_append len_xx)
  have lens: "\<forall>e\<in>set (map ((!) s) R). length e = N"
    using assms(2) by (auto simp: R_def N_def)
  have res: "get_projection BASE f a b s = Inr (Suc (length s), s')"
    using s'(1)
    by (simp add: get_projection_def alloc_eq Let_def N_def [symmetric] R_def [symmetric]
          xx_def [symmetric] s2_def)
  have "s' ! Suc (length s) =
          map (\<lambda>i. replicate N 0 ! i + (\<Sum>k<length (map ((!) s) R).
                 simpson_result a b (map2 (*) (map f xx) (map ((!) s) R ! k)) (int N)
                   * map ((!) s) R ! k ! i)) [0..<N]"
    unfolding s'(2) old v z
    by (rule foldl_project_step [OF lens]) simp
  also have "\<dots> = map (\<lambda>i. \<Sum>k<length R.
                 simpson_result a b (map2 (*) (map f xx) (s ! (R ! k))) (int N) * s ! (R ! k) ! i) [0..<N]"
    by (auto intro!: sum.cong)
  finally show ?thesis
    using res by (simp add: N_def R_def xx_def)
qed

theorem get_projection_sum_witness:
  "\<exists>projection s'. get_projection \<lparr>rows = [0], ncols = 3\<rparr> (\<lambda>x. x) 0 1 [[1, 1, 1]]
                      = Inr (projection, s')
     \<and> s' ! projection =
         map (\<lambda>i. simpson_result 0 1 (map2 (*) (map (\<lambda>x. x) (linspace 0 1 3)) [1, 1, 1]) 3
                    * [1, 1, 1] ! i) [0..<3]"
  using get_projection_sum [of "\<lparr>rows = [0], ncols = 3\<rparr>" "[[1, 1, 1]]" "\<lambda>x. x" 0 1]
  by simp

text \<open>
  C9. The projector leaves \<open>BASE\<close> as it found it: after a call that returns, every row of
  \<open>BASE\<close>, and every array that the store held before the call, has the contents it had.
  The call returns whenever \<open>BASE\<close> has a column.
\<close>

theorem get_projection_borrows_BASE:
  assumes "\<forall>r\<in>set (rows BASE). r < length s"
  shows "(\<forall>projection s'. get_projection BASE f a b s = Inr (projection, s')
            \<longrightarrow> matrix_of s' BASE = matrix_of s BASE \<and> (\<forall>p<length s. s' ! p = s ! p))
         \<and> (0 < ncols BASE \<longrightarrow> (\<exists>projection s'. get_projection BASE f a b s = Inr (projection, s')))"
proof -
  define N where "N = ncols BASE"
  define R where "R = rows BASE"
  define xx where "xx = linspace a b N"
  define s2 where "s2 = s @ [map f xx] @ [replicate (length xx) 0]"
  have valid: "R ! k < length s" if "k < length R" for k
    using assms nth_mem [of k "rows BASE"] that by (auto simp: R_def)
  have rowsR: "\<forall>k\<in>set [0..<length R]. k < length R \<and> R ! k < length s2 \<and> R ! k \<noteq> Suc (length s)"
    using valid by (fastforce simp: s2_def)
  have unfold: "get_projection BASE f a b s =
       (case accumulate_projections a b (int N) (length s) (Suc (length s)) R [0..<length R] s2 of
          Inl e \<Rightarrow> Inl e | Inr s3 \<Rightarrow> Inr (Suc (length s), s3))"
    by (simp add: get_projection_def alloc_eq Let_def N_def [symmetric] R_def [symmetric]
          xx_def [symmetric] s2_def cong: sum.case_cong)
  have frame: "matrix_of s' BASE = matrix_of s BASE \<and> (\<forall>p<length s. s' ! p = s ! p)"
    if "get_projection BASE f a b s = Inr (projection, s')" for projection s'
  proof -
    from that have acc: "accumulate_projections a b (int N) (length s) (Suc (length s)) R [0..<length R] s2 = Inr s'"
      unfolding unfold by (auto split: sum.splits)
    have "\<forall>p<length s2. p \<noteq> Suc (length s) \<longrightarrow> s' ! p = s2 ! p"
      by (rule accumulate_projections_frame [OF acc _ _ _ rowsR]) (simp_all add: s2_def)
    then have old: "\<forall>p<length s. s' ! p = s ! p"
      by (simp add: s2_def nth_append)
    then show ?thesis
      using assms by (simp add: matrix_of_def)
  qed
  have returns: "\<exists>projection s'. get_projection BASE f a b s = Inr (projection, s')"
    if "0 < ncols BASE"
  proof -
    have N0: "int N \<noteq> 0" using that by (simp add: N_def)
    have "\<exists>s'. accumulate_projections a b (int N) (length s) (Suc (length s)) R [0..<length R] s2 = Inr s'
          \<and> length s' = length s2 + length [0..<length R]
          \<and> (\<forall>p<length s2. p \<noteq> Suc (length s) \<longrightarrow> s' ! p = s2 ! p)
          \<and> s' ! Suc (length s) = foldl (project_step a b (int N) (s2 ! length s)) (s2 ! Suc (length s))
                             (map (\<lambda>k. s2 ! (R ! k)) [0..<length R])"
      by (rule accumulate_projections_ok [OF N0 _ _ _ rowsR]) (simp_all add: s2_def)
    then show ?thesis unfolding unfold by auto
  qed
  show ?thesis using frame returns by blast
qed

theorem get_projection_borrows_BASE_witness:
  "\<exists>projection s'. get_projection \<lparr>rows = [0], ncols = 3\<rparr> (\<lambda>x. x) 0 1 [[1, 1, 1]]
                      = Inr (projection, s')
     \<and> matrix_of s' \<lparr>rows = [0], ncols = 3\<rparr> = matrix_of [[1, 1, 1]] \<lparr>rows = [0], ncols = 3\<rparr>"
  using get_projection_borrows_BASE [of "\<lparr>rows = [0], ncols = 3\<rparr>" "[[1, 1, 1]]" "\<lambda>x. x" 0 1]
  by auto

section \<open>Properties of the builder\<close>

text \<open>
  One round of the loop of lines 87 to 98 allocates \<open>wn\<close>, \<open>p_sum\<close> and the arguments of
  the quadrature, and writes the row \<open>n\<close> of \<open>BASE\<close>; on the rows of \<open>BASE\<close> the loop
  computes \<open>gs_rows\<close>.
\<close>

lemma map_nth_update_distinct:
  assumes "distinct R" and "n < length R" and "R ! n < length s"
  shows "map ((!) (s[R ! n := x])) R = (map ((!) s) R)[n := x]"
proof (rule nth_equalityI)
  show "length (map ((!) (s[R ! n := x])) R) = length ((map ((!) s) R)[n := x])"
    by simp
next
  fix j assume "j < length (map ((!) (s[R ! n := x])) R)"
  then have j: "j < length R" by simp
  show "map ((!) (s[R ! n := x])) R ! j = (map ((!) s) R)[n := x] ! j"
  proof (cases "j = n")
    case True
    then show ?thesis using j assms(3) by simp
  next
    case False
    then have "R ! j \<noteq> R ! n"
      using assms j by (simp add: nth_eq_iff_index_eq)
    then show ?thesis using j False by simp
  qed
qed

lemma gram_schmidt_loop_ok:
  assumes "N \<noteq> 0" and "distinct R" and "\<forall>r\<in>set R. r < length s" and "\<forall>n\<in>set ns. n < length R"
  shows "\<exists>s'. gram_schmidt_loop a b N xx R ns s = Inr s'
           \<and> length s \<le> length s'
           \<and> map ((!) s') R = gs_rows a b N xx (map ((!) s) R) ns
           \<and> (\<forall>p<length s. p \<notin> set R \<longrightarrow> s' ! p = s ! p)"
  using assms
proof (induction ns arbitrary: s)
  case Nil
  then show ?case by simp
next
  case (Cons n ns)
  let ?w0 = "map (\<lambda>x. x ^ n) xx"
  let ?s2 = "s @ [?w0, replicate (length xx) 0]"
  have n: "n < length R" using Cons.prems(4) by simp
  have valid: "R ! k < length s" if "k < length R" for k
    using Cons.prems(3) nth_mem [OF that] by auto
  have ks: "\<forall>k\<in>set [0..<n]. k < length R \<and> R ! k < length ?s2 \<and> R ! k \<noteq> Suc (length s)"
  proof
    fix k assume "k \<in> set [0..<n]"
    then have k: "k < length R" using n by simp
    from valid [OF k] k show "k < length R \<and> R ! k < length ?s2 \<and> R ! k \<noteq> Suc (length s)"
      by simp
  qed
  have "\<exists>s3. accumulate_projections a b N (length s) (Suc (length s)) R [0..<n] ?s2 = Inr s3
          \<and> length s3 = length ?s2 + length [0..<n]
          \<and> (\<forall>p<length ?s2. p \<noteq> Suc (length s) \<longrightarrow> s3 ! p = ?s2 ! p)
          \<and> s3 ! Suc (length s) = foldl (project_step a b N (?s2 ! length s)) (?s2 ! Suc (length s))
                           (map (\<lambda>k. ?s2 ! (R ! k)) [0..<n])"
    by (rule accumulate_projections_ok [OF Cons.prems(1) _ _ _ ks]) simp_all
  then obtain s3 where s3: "accumulate_projections a b N (length s) (Suc (length s)) R [0..<n] ?s2 = Inr s3"
    "length s3 = Suc (Suc (length s + n))"
    "\<forall>p<length ?s2. p \<noteq> Suc (length s) \<longrightarrow> s3 ! p = ?s2 ! p"
    "s3 ! Suc (length s) = foldl (project_step a b N (?s2 ! length s)) (?s2 ! Suc (length s))
                           (map (\<lambda>k. ?s2 ! (R ! k)) [0..<n])"
    by auto
  have earlier: "map (\<lambda>k. ?s2 ! (R ! k)) [0..<n] = take n (map ((!) s) R)"
    using valid n by (auto simp: nth_append intro!: nth_equalityI)
  have s3_wn: "s3 ! length s = ?w0"
    using s3(3) by simp
  define w where "w = orthogonalised a b N xx (take n (map ((!) s) R)) n"
  have s3_p: "s3 ! Suc (length s)
      = foldl (project_step a b N ?w0) (replicate (length xx) 0) (take n (map ((!) s) R))"
    unfolding s3(4) earlier by (simp add: nth_append)
  have w: "map2 (-) (s3 ! length s) (s3 ! Suc (length s)) = w"
    by (simp add: s3_wn s3_p w_def orthogonalised_def Let_def)
  define sq where "sq = map (\<lambda>x. x ^ 2) w"
  define s6 where "s6 = s3[length s := w] @ [simpson_scaled sq]"
  define s7 where "s7 = s6[R ! n := normalised a b N w]"
  have s6_wn: "s6 ! length s = w"
    by (simp add: s6_def nth_append s3(2))
  have unfold: "gram_schmidt_loop a b N xx R (n # ns) s = gram_schmidt_loop a b N xx R ns s7"
    using Cons.prems(1)
    by (simp add: alloc_eq Let_def s3(1) w s3(2) integration_simpson_sampled_eq
          sq_def [symmetric])
       (simp add: s7_def s6_def s3(2) normalised_def sq_def nth_append)
  have s6_old: "s6 ! p = s ! p" if "p < length s" for p
    using that s3(3)
    by (simp add: s6_def nth_append s3(2))
  have len7: "length s7 = length s + 3 + n" by (simp add: s7_def s6_def s3(2))
  have rows6: "map ((!) s6) R = map ((!) s) R"
    using Cons.prems(3) by (simp add: s6_old)
  have "R ! n < length s6"
    using valid [OF n] by (simp add: s6_def s3(2))
  then have rows7: "map ((!) s7) R = (map ((!) s) R)[n := normalised a b N w]"
    unfolding s7_def
    by (simp add: map_nth_update_distinct [OF Cons.prems(2) n] rows6)
  have pre: "\<forall>r\<in>set R. r < length s7" "\<forall>n\<in>set ns. n < length R"
    using Cons.prems(3,4) len7 by auto
  from Cons.IH [OF Cons.prems(1,2) pre]
  obtain s' where s': "gram_schmidt_loop a b N xx R ns s7 = Inr s'"
    "length s7 \<le> length s'"
    "map ((!) s') R = gs_rows a b N xx (map ((!) s7) R) ns"
    "\<forall>p<length s7. p \<notin> set R \<longrightarrow> s' ! p = s7 ! p"
    by blast
  have "\<forall>p<length s. p \<notin> set R \<longrightarrow> s' ! p = s ! p"
  proof (intro allI impI)
    fix p assume p: "p < length s" "p \<notin> set R"
    then have "p \<noteq> R ! n" using n by auto
    then have "s7 ! p = s ! p" using p by (simp add: s7_def s6_old)
    then show "s' ! p = s ! p" using s'(4) p len7 by simp
  qed
  then show ?case
    using unfold s' len7 by (simp add: rows7 w_def)
qed

text \<open>The seeding of lines 80 and 81 writes the rows of \<open>BASE\<close> and nothing else.\<close>

lemma length_seed_monomials [simp]: "length (seed_monomials xx R ns s) = length s"
  by (induction ns arbitrary: s) simp_all

lemma seed_monomials_frame:
  assumes "\<forall>n\<in>set ns. n < length R" and "p \<notin> set R"
  shows "seed_monomials xx R ns s ! p = s ! p"
  using assms
proof (induction ns arbitrary: s)
  case Nil
  then show ?case by simp
next
  case (Cons n ns)
  then have "R ! n \<noteq> p" by auto
  then show ?case using Cons by simp
qed

lemma seed_monomials_rows:
  assumes "distinct R" and "\<forall>r\<in>set R. r < length s"
  shows "map ((!) (seed_monomials xx R [0..<length R] s)) R
           = map (\<lambda>n. map (\<lambda>x. x ^ n) xx) [0..<length R]"
proof -
  have gen: "map ((!) (seed_monomials xx R ns s)) R
           = map (\<lambda>j. if j \<in> set ns then map (\<lambda>x. x ^ j) xx else s ! (R ! j)) [0..<length R]"
    if "\<forall>n\<in>set ns. n < length R" "\<forall>r\<in>set R. r < length s" for ns s
    using that
  proof (induction ns arbitrary: s)
    case Nil
    then show ?case by (simp add: map_nth_upt)
  next
    case (Cons n ns)
    let ?s1 = "s[R ! n := map (\<lambda>x. x ^ n) xx]"
    have n: "n < length R" using Cons.prems(1) by simp
    have valid: "\<forall>r\<in>set R. r < length ?s1" using Cons.prems(2) by simp
    have "map ((!) (seed_monomials xx R ns ?s1)) R
           = map (\<lambda>j. if j \<in> set ns then map (\<lambda>x. x ^ j) xx else ?s1 ! (R ! j)) [0..<length R]"
      using Cons.IH [OF _ valid] Cons.prems(1) by simp
    also have "\<dots> = map (\<lambda>j. if j \<in> set (n # ns) then map (\<lambda>x. x ^ j) xx else s ! (R ! j))
                        [0..<length R]"
    proof (rule map_cong [OF refl])
      fix j assume "j \<in> set [0..<length R]"
      then have j: "j < length R" by simp
      have "R ! j < length s" using Cons.prems(2) j by simp
      moreover have "R ! j = R ! n \<longleftrightarrow> j = n"
        using assms(1) j n by (simp add: nth_eq_iff_index_eq)
      ultimately show "(if j \<in> set ns then map (\<lambda>x. x ^ j) xx else ?s1 ! (R ! j))
          = (if j \<in> set (n # ns) then map (\<lambda>x. x ^ j) xx else s ! (R ! j))"
        by (auto simp: nth_list_update)
    qed
    finally show ?case by simp
  qed
  show ?thesis
    using gen [of "[0..<length R]" s] assms(2) by (simp cong: map_cong)
qed

lemma orthonormalise_rows_ok:
  assumes "N \<noteq> 0" and "distinct (rows BASE)" and "\<forall>r\<in>set (rows BASE). r < length s"
    and "rows BASE \<noteq> []" and "m = length (rows BASE)"
  shows "\<exists>s'. orthonormalise_rows m N a b xx BASE s = Inr (BASE, s')
           \<and> length s \<le> length s'
           \<and> matrix_of s' BASE
               = gs_rows a b N xx ((matrix_of s BASE)[0 := first_row a b N xx]) [1..<m]
           \<and> (\<forall>p<length s. p \<notin> set (rows BASE) \<longrightarrow> s' ! p = s ! p)"
proof -
  define R where "R = rows BASE"
  let ?ones = "replicate (length xx) (1 :: real)"
  define s2 where "s2 = s @ [simpson_scaled ?ones]"
  define s3 where "s3 = s2[R ! 0 := first_row a b N xx]"
  have R0: "0 < length R" using assms(4) by (simp add: R_def)
  have valid: "R ! k < length s" if "k < length R" for k
    using assms(3) nth_mem [OF that] by (auto simp: R_def)
  have s2_old: "s2 ! p = s ! p" if "p < length s" for p
    using that by (simp add: s2_def nth_append)
  have rows2: "map ((!) s2) R = map ((!) s) R"
    using assms(3) by (simp add: s2_old R_def)
  have "R ! 0 < length s2" using valid [OF R0] by (simp add: s2_def)
  moreover have dR: "distinct R" using assms(2) by (simp add: R_def)
  ultimately have rows3: "map ((!) s3) R = (map ((!) s) R)[0 := first_row a b N xx]"
    unfolding s3_def
    by (simp add: map_nth_update_distinct [OF dR R0] rows2)
  have pre: "\<forall>r\<in>set R. r < length s3" "\<forall>n\<in>set [1..<m]. n < length R"
    using assms(3,5) by (auto simp: s3_def s2_def R_def)
  from gram_schmidt_loop_ok [OF assms(1) dR pre, of a b xx]
  obtain s' where s': "gram_schmidt_loop a b N xx R [1..<m] s3 = Inr s'"
    "length s3 \<le> length s'"
    "map ((!) s') R = gs_rows a b N xx (map ((!) s3) R) [1..<m]"
    "\<forall>p<length s3. p \<notin> set R \<longrightarrow> s' ! p = s3 ! p"
    by blast
  have unfold: "orthonormalise_rows m N a b xx BASE s = Inr (BASE, s')"
    using assms(1,4) s'(1)
    by (simp add: orthonormalise_rows_def alloc_eq integration_simpson_sampled_eq
          R_def [symmetric] s2_def [symmetric] s3_def first_row_def)
  have "\<forall>p<length s. p \<notin> set R \<longrightarrow> s' ! p = s ! p"
  proof (intro allI impI)
    fix p assume p: "p < length s" "p \<notin> set R"
    then have "p \<noteq> R ! 0" using R0 by auto
    then have "s3 ! p = s ! p" using p by (simp add: s3_def s2_old)
    moreover have "p < length s3" using p by (simp add: s3_def s2_def)
    ultimately show "s' ! p = s ! p" using s'(4) p by simp
  qed
  moreover have "length s \<le> length s'"
    using s'(2) by (simp add: s3_def s2_def)
  moreover have "matrix_of s' BASE
      = gs_rows a b N xx ((matrix_of s BASE)[0 := first_row a b N xx]) [1..<m]"
    using s'(3) unfolding rows3 by (simp add: matrix_of_def R_def)
  ultimately show ?thesis
    using unfold by (simp add: R_def)
qed

text \<open>
  With \<open>N > 0\<close> and at least one row the builder returns: \<open>BASE\<close> is made of fresh
  rows, holds \<open>gs_rows\<close> of its seeded contents, and the caller's arrays are untouched.
  The variant that skips the seeding returns \<open>gs_rows\<close> of rows of zeros.
\<close>

lemma length_linspace [simp]: "length (linspace a b N) = N"
  by (simp add: linspace_def)

lemma legendre_polynomial_normalized_ok:
  assumes "0 < N" and "0 < number_functions"
  shows "\<exists>BASE s'. legendre_polynomial_normalized number_functions N a b s = Inr (BASE, s')
           \<and> rows BASE = [length s..<length s + nat number_functions] \<and> ncols BASE = nat N
           \<and> matrix_of s' BASE
               = gs_rows a b N (linspace a b (nat N))
                   ((map (\<lambda>n. map (\<lambda>x. x ^ n) (linspace a b (nat N))) [0..<nat number_functions])
                      [0 := first_row a b N (linspace a b (nat N))])
                   [1..<nat number_functions]
           \<and> (\<forall>p<length s. s' ! p = s ! p)"
proof -
  define m where "m = nat number_functions"
  define xx where "xx = linspace a b (nat N)"
  define BASE where "BASE = \<lparr>rows = [length s..<length s + m], ncols = nat N\<rparr>"
  define s1 where "s1 = s @ replicate m (replicate (nat N) (0 :: real))"
  define s2 where "s2 = seed_monomials xx (rows BASE) [0..<m] s1"
  have m: "0 < m" using assms(2) by (simp add: m_def)
  have len: "length (rows BASE) = m" by (simp add: BASE_def)
  have dist: "distinct (rows BASE)" by (simp add: BASE_def)
  have valid1: "\<forall>r\<in>set (rows BASE). r < length s1" by (simp add: BASE_def s1_def)
  then have valid2: "\<forall>r\<in>set (rows BASE). r < length s2" by (simp add: s2_def)
  have unfold: "legendre_polynomial_normalized number_functions N a b s
                  = orthonormalise_rows m N a b xx BASE s2"
    using assms
    by (simp add: legendre_polynomial_normalized_def zeros2_def Let_def m_def [symmetric]
          xx_def [symmetric] BASE_def [symmetric] s1_def [symmetric] s2_def)
  have seeded: "matrix_of s2 BASE = map (\<lambda>n. map (\<lambda>x. x ^ n) xx) [0..<m]"
    using seed_monomials_rows [OF dist valid1, of xx] by (simp add: matrix_of_def s2_def len)
  have s2_old: "s2 ! p = s ! p" if "p < length s" for p
  proof -
    have "p \<notin> set (rows BASE)" using that by (simp add: BASE_def)
    then have "s2 ! p = s1 ! p"
      unfolding s2_def by (intro seed_monomials_frame) (simp_all add: len)
    then show ?thesis using that by (simp add: s1_def nth_append)
  qed
  have "N \<noteq> 0" "rows BASE \<noteq> []" using assms(1) m by (auto simp: BASE_def)
  from orthonormalise_rows_ok [OF this(1) dist valid2 this(2) len [symmetric], of a b xx]
  obtain s' where s': "orthonormalise_rows m N a b xx BASE s2 = Inr (BASE, s')"
    "matrix_of s' BASE = gs_rows a b N xx ((matrix_of s2 BASE)[0 := first_row a b N xx]) [1..<m]"
    "\<forall>p<length s2. p \<notin> set (rows BASE) \<longrightarrow> s' ! p = s2 ! p"
    by blast
  have "\<forall>p<length s. s' ! p = s ! p"
  proof (intro allI impI)
    fix p assume p: "p < length s"
    then have "p \<notin> set (rows BASE)" "p < length s2" by (simp_all add: BASE_def s2_def s1_def)
    then show "s' ! p = s ! p" using s'(3) s2_old [OF p] by simp
  qed
  moreover have "legendre_polynomial_normalized number_functions N a b s = Inr (BASE, s')"
    using unfold s'(1) by simp
  moreover have "rows BASE = [length s..<length s + m] \<and> ncols BASE = nat N"
    by (simp add: BASE_def)
  moreover have "matrix_of s' BASE
      = gs_rows a b N xx ((map (\<lambda>n. map (\<lambda>x. x ^ n) xx) [0..<m])[0 := first_row a b N xx]) [1..<m]"
    using s'(2) by (simp only: seeded)
  ultimately show ?thesis
    unfolding m_def xx_def by blast
qed

lemma legendre_polynomial_normalized_unseeded_ok:
  assumes "0 < N" and "0 < number_functions"
  shows "\<exists>BASE s'. legendre_polynomial_normalized_unseeded number_functions N a b s = Inr (BASE, s')
           \<and> matrix_of s' BASE
               = gs_rows a b N (linspace a b (nat N))
                   ((replicate (nat number_functions) (replicate (nat N) 0))
                      [0 := first_row a b N (linspace a b (nat N))])
                   [1..<nat number_functions]"
proof -
  define m where "m = nat number_functions"
  define xx where "xx = linspace a b (nat N)"
  define BASE where "BASE = \<lparr>rows = [length s..<length s + m], ncols = nat N\<rparr>"
  define s1 where "s1 = s @ replicate m (replicate (nat N) (0 :: real))"
  have m: "0 < m" using assms(2) by (simp add: m_def)
  have len: "length (rows BASE) = m" by (simp add: BASE_def)
  have dist: "distinct (rows BASE)" by (simp add: BASE_def)
  have valid1: "\<forall>r\<in>set (rows BASE). r < length s1" by (simp add: BASE_def s1_def)
  have unfold: "legendre_polynomial_normalized_unseeded number_functions N a b s
                  = orthonormalise_rows m N a b xx BASE s1"
    using assms
    by (simp add: legendre_polynomial_normalized_unseeded_def zeros2_def Let_def m_def [symmetric]
          xx_def [symmetric] BASE_def [symmetric] s1_def [symmetric])
  have zeros: "matrix_of s1 BASE = replicate m (replicate (nat N) 0)"
    by (auto simp: matrix_of_def BASE_def s1_def nth_append intro!: nth_equalityI)
  have "N \<noteq> 0" "rows BASE \<noteq> []" using assms(1) m by (auto simp: BASE_def)
  from orthonormalise_rows_ok [OF this(1) dist valid1 this(2) len [symmetric], of a b xx]
  obtain s' where s': "orthonormalise_rows m N a b xx BASE s1 = Inr (BASE, s')"
    "matrix_of s' BASE = gs_rows a b N xx ((matrix_of s1 BASE)[0 := first_row a b N xx]) [1..<m]"
    by blast
  have "legendre_polynomial_normalized_unseeded number_functions N a b s = Inr (BASE, s')"
    using unfold s'(1) by simp
  moreover have "matrix_of s' BASE
      = gs_rows a b N xx ((replicate m (replicate (nat N) 0))[0 := first_row a b N xx]) [1..<m]"
    using s'(2) by (simp only: zeros)
  ultimately show ?thesis
    unfolding m_def xx_def by blast
qed

text \<open>
  \<open>gs_rows\<close> over the degrees \<open>i, \<dots>, m - 1\<close>: each row is computed from the rows before
  it, and from nothing else.
\<close>

lemma length_gs_rows [simp]: "length (gs_rows a b N xx M ns) = length M"
  by (induction ns arbitrary: M) simp_all

lemma gs_rows_nth_other: "j \<notin> set ns \<Longrightarrow> gs_rows a b N xx M ns ! j = M ! j"
  by (induction ns arbitrary: M) simp_all

lemma gs_rows_take: "\<forall>n\<in>set ns. i \<le> n \<Longrightarrow> take i (gs_rows a b N xx M ns) = take i M"
  by (induction ns arbitrary: M) simp_all

lemma gs_rows_upt_nth:
  assumes "m \<le> length M" and "i \<le> n" and "n < m"
  shows "gs_rows a b N xx M [i..<m] ! n
           = normalised a b N (orthogonalised a b N xx (take n (gs_rows a b N xx M [i..<m])) n)"
  using assms
proof (induction "n - i" arbitrary: i M)
  case 0
  then have i: "i = n" by simp
  let ?M' = "M[n := normalised a b N (orthogonalised a b N xx (take n M) n)]"
  have step: "gs_rows a b N xx M [n..<m] = gs_rows a b N xx ?M' [Suc n..<m]"
    using 0 by (simp add: upt_conv_Cons)
  have "gs_rows a b N xx ?M' [Suc n..<m] ! n = ?M' ! n"
    by (rule gs_rows_nth_other) simp
  moreover have "take n (gs_rows a b N xx ?M' [Suc n..<m]) = take n ?M'"
    by (rule gs_rows_take) simp
  ultimately show ?case
    using 0 by (simp add: i step)
next
  case (Suc d)
  then have lt: "i < m" "Suc i \<le> n" by simp_all
  let ?M' = "M[i := normalised a b N (orthogonalised a b N xx (take i M) i)]"
  have step: "gs_rows a b N xx M [i..<m] = gs_rows a b N xx ?M' [Suc i..<m]"
    using lt by (simp add: upt_conv_Cons)
  have "d = n - Suc i" using Suc.hyps(2) by simp
  from Suc.hyps(1) [OF this _ lt(2) Suc.prems(3), of ?M'] Suc.prems(1)
  show ?case by (simp add: step)
qed

lemma gs_rows_cong:
  assumes "take i M = take i M'" and "length M = length M'" and "i \<le> length M"
  shows "gs_rows a b N xx M [i..<length M] = gs_rows a b N xx M' [i..<length M]"
  using assms
proof (induction "length M - i" arbitrary: i M M')
  case 0
  then have "i = length M" by simp
  then show ?case using 0 by simp
next
  case (Suc d)
  then have lt: "i < length M" by simp
  let ?x = "normalised a b N (orthogonalised a b N xx (take i M) i)"
  have take': "take (Suc i) (M[i := ?x]) = take (Suc i) (M'[i := ?x])"
    using Suc.prems lt by (simp add: take_Suc_conv_app_nth)
  have IH: "gs_rows a b N xx (M[i := ?x]) [Suc i..<length (M[i := ?x])]
              = gs_rows a b N xx (M'[i := ?x]) [Suc i..<length (M[i := ?x])]"
    by (rule Suc.hyps(1)) (use Suc.hyps(2) Suc.prems lt take' in simp_all)
  show ?case
    using lt IH Suc.prems(1) by (simp add: upt_conv_Cons)
qed

text \<open>
  On rows of the length of the grid, the loop's working vector is the one the specification
  words; every row that the builder stores has the length of the grid.
\<close>

lemma length_normalised [simp]: "length (normalised a b N w) = length w"
  by (simp add: normalised_def)

lemma orthogonalised_eq_residual:
  assumes "\<forall>e\<in>set es. length e = length xx"
  shows "orthogonalised a b N xx es n = orthogonal_residual a b N xx es n"
proof -
  let ?wn = "map (\<lambda>x. x ^ n) xx"
  have fold: "foldl (project_step a b N ?wn) (replicate (length xx) 0) es
      = map (\<lambda>i. replicate (length xx) 0 ! i
                  + (\<Sum>k<length es. simpson_result a b (map2 (*) ?wn (es ! k)) N * es ! k ! i))
            [0..<length xx]"
    by (rule foldl_project_step [OF assms]) simp
  show ?thesis
    unfolding orthogonalised_def orthogonal_residual_def Let_def length_map fold
    by (rule nth_equalityI) simp_all
qed

lemma length_orthogonal_residual [simp]:
  "length (orthogonal_residual a b N xx es n) = length xx"
  by (simp add: orthogonal_residual_def)

lemma gs_rows_lengths:
  assumes "\<forall>j<i. length (M ! j) = length xx" and "m \<le> length M" and "j < m" and "0 < i"
  shows "length (gs_rows a b N xx M [i..<m] ! j) = length xx"
  using assms
proof (induction "m - i" arbitrary: i M)
  case 0
  then show ?case by simp
next
  case (Suc d)
  then have lt: "i < m" by simp
  have es: "\<forall>e\<in>set (take i M). length e = length xx"
    using Suc.prems(1,2) lt by (auto simp: in_set_conv_nth)
  let ?x = "normalised a b N (orthogonalised a b N xx (take i M) i)"
  have len_x: "length ?x = length xx"
    by (simp add: orthogonalised_eq_residual [OF es])
  have pre: "\<forall>j<Suc i. length (M[i := ?x] ! j) = length xx"
    using Suc.prems(1,2) lt len_x by (auto simp: nth_list_update less_Suc_eq)
  have "length (gs_rows a b N xx (M[i := ?x]) [Suc i..<m] ! j) = length xx"
    by (rule Suc.hyps(1)) (use Suc.hyps(2) Suc.prems pre in simp_all)
  then show ?case using lt by (simp add: upt_conv_Cons)
qed

lemma length_first_row [simp]: "length (first_row a b N xx) = length xx"
  by (simp add: first_row_def)

text \<open>What the builder returns, row by row.\<close>

lemma builder_rows:
  assumes "0 < N" and "0 < number_functions"
  shows "\<exists>BASE s'. legendre_polynomial_normalized number_functions N a b s = Inr (BASE, s')
           \<and> length (matrix_of s' BASE) = nat number_functions
           \<and> (\<forall>j<nat number_functions. length (matrix_of s' BASE ! j) = nat N)
           \<and> matrix_of s' BASE ! 0 = first_row a b N (linspace a b (nat N))
           \<and> (\<forall>n. 1 \<le> n \<and> n < nat number_functions \<longrightarrow>
                 matrix_of s' BASE ! n
                   = normalised a b N
                       (orthogonal_residual a b N (linspace a b (nat N))
                          (take n (matrix_of s' BASE)) n))"
proof -
  define m where "m = nat number_functions"
  define xx where "xx = linspace a b (nat N)"
  define M where "M = (map (\<lambda>n. map (\<lambda>x. x ^ n) xx) [0..<m])[0 := first_row a b N xx]"
  define G where "G = gs_rows a b N xx M [1..<m]"
  from legendre_polynomial_normalized_ok [OF assms, of a b s]
  obtain BASE s' where res: "legendre_polynomial_normalized number_functions N a b s = Inr (BASE, s')"
    and mat: "matrix_of s' BASE = G"
    unfolding G_def M_def xx_def m_def by blast
  have m: "0 < m" using assms(2) by (simp add: m_def)
  have lenM: "length M = m" by (simp add: M_def)
  have lenG: "length G = m" by (simp add: G_def lenM)
  have M0: "\<forall>j<1. length (M ! j) = length xx" using m by (simp add: M_def)
  have rows_len: "length (G ! j) = length xx" if "j < m" for j
    unfolding G_def by (rule gs_rows_lengths [OF M0 _ that]) (simp_all add: lenM)
  have G0: "G ! 0 = first_row a b N xx"
  proof -
    have "G ! 0 = M ! 0" unfolding G_def by (rule gs_rows_nth_other) simp
    then show ?thesis using m by (simp add: M_def)
  qed
  have Gn: "G ! n = normalised a b N (orthogonal_residual a b N xx (take n G) n)"
    if "1 \<le> n" "n < m" for n
  proof -
    have "G ! n = normalised a b N (orthogonalised a b N xx (take n G) n)"
      unfolding G_def by (rule gs_rows_upt_nth) (use that lenM in simp_all)
    moreover have "\<forall>e\<in>set (take n G). length e = length xx"
      using that lenG rows_len by (auto simp: in_set_conv_nth)
    ultimately show ?thesis by (simp add: orthogonalised_eq_residual)
  qed
  have "length xx = nat N" by (simp add: xx_def)
  then show ?thesis
    using res lenG rows_len G0 Gn
    unfolding mat [symmetric] m_def xx_def by auto
qed

text \<open>
  C5. For \<open>count \<ge> 2\<close> the builder returns a matrix of exactly \<open>count\<close> rows of length
  \<open>N\<close>, and every row \<open>n\<close> with \<open>1 \<le> n < count\<close> is \<open>w\<^sub>n / sqrt (integrate(a, b, w\<^sub>n\<^sup>2, N))\<close>,
  where \<open>w\<^sub>n\<close> is the sampled monomial \<open>x\<^sup>n\<close> minus the sum over \<open>k < n\<close> of
  \<open>integrate(a, b, x\<^sup>n * e\<^sub>k, N)\<close> times \<open>e\<^sub>k\<close>, the \<open>e\<^sub>k\<close> being the rows \<open>k < n\<close> of the
  returned matrix. Proved for every \<open>N > 0\<close>.
\<close>

theorem gram_schmidt_rows:
  assumes "2 \<le> number_functions" and "0 < N"
  shows "\<exists>BASE s'. legendre_polynomial_normalized number_functions N a b s = Inr (BASE, s')
           \<and> length (matrix_of s' BASE) = nat number_functions
           \<and> (\<forall>j<nat number_functions. length (matrix_of s' BASE ! j) = nat N)
           \<and> (\<forall>n. 1 \<le> n \<and> n < nat number_functions \<longrightarrow>
                 matrix_of s' BASE ! n
                   = normalised a b N
                       (orthogonal_residual a b N (linspace a b (nat N))
                          (take n (matrix_of s' BASE)) n))"
proof -
  have "0 < number_functions" using assms(1) by simp
  from builder_rows [OF assms(2) this, of a b s] show ?thesis by blast
qed

theorem gram_schmidt_rows_witness:
  "\<exists>BASE s'. legendre_polynomial_normalized 2 3 (-1) 1 [] = Inr (BASE, s')
           \<and> length (matrix_of s' BASE) = 2
           \<and> length (matrix_of s' BASE ! 0) = 3 \<and> length (matrix_of s' BASE ! 1) = 3
           \<and> matrix_of s' BASE ! 1
                   = normalised (-1) 1 3
                       (orthogonal_residual (-1) 1 3 (linspace (-1) 1 3)
                          (take 1 (matrix_of s' BASE)) 1)"
proof -
  from gram_schmidt_rows [of 2 3 "-1" 1 "[]"]
  obtain BASE s' where r: "legendre_polynomial_normalized 2 3 (-1) 1 [] = Inr (BASE, s')"
    "length (matrix_of s' BASE) = nat 2"
    "\<forall>j<nat 2. length (matrix_of s' BASE ! j) = nat 3"
    "\<forall>n. 1 \<le> n \<and> n < nat 2 \<longrightarrow>
        matrix_of s' BASE ! n
          = normalised (-1) 1 3
              (orthogonal_residual (-1) 1 3 (linspace (-1) 1 (nat 3)) (take n (matrix_of s' BASE)) n)"
    by auto
  from r(3) have "length (matrix_of s' BASE ! 0) = 3" "length (matrix_of s' BASE ! 1) = 3"
    by simp_all
  moreover from r(4) have "matrix_of s' BASE ! 1
          = normalised (-1) 1 3
              (orthogonal_residual (-1) 1 3 (linspace (-1) 1 3) (take 1 (matrix_of s' BASE)) 1)"
    by simp
  ultimately show ?thesis using r(1,2) by auto
qed

text \<open>
  C10. The builder returns the same matrix, or fails with the same error, as the variant
  without the seeding of lines 80 and 81: the seeded rows are dead values.
\<close>

theorem seeding_is_dead:
  "map_sum id (\<lambda>(BASE, s'). matrix_of s' BASE) (legendre_polynomial_normalized number_functions N a b s)
     = map_sum id (\<lambda>(BASE, s'). matrix_of s' BASE)
         (legendre_polynomial_normalized_unseeded number_functions N a b s)"
proof -
  consider "N < 0 \<or> number_functions < 0" | "N = 0" "0 \<le> number_functions"
    | "0 < N" "number_functions = 0" | "0 < N" "0 < number_functions"
    by linarith
  then show ?thesis
  proof cases
    case 1
    then show ?thesis
      by (auto simp: legendre_polynomial_normalized_def legendre_polynomial_normalized_unseeded_def)
  next
    case 2
    then show ?thesis
      by (simp add: legendre_polynomial_normalized_def legendre_polynomial_normalized_unseeded_def
            zeros2_def orthonormalise_rows_def alloc_eq integration_simpson_sampled_def Let_def)
  next
    case 3
    then show ?thesis
      by (simp add: legendre_polynomial_normalized_def legendre_polynomial_normalized_unseeded_def
            zeros2_def orthonormalise_rows_def alloc_eq integration_simpson_sampled_eq Let_def)
  next
    case 4
    define m where "m = nat number_functions"
    define xx where "xx = linspace a b (nat N)"
    define M where "M = (map (\<lambda>n. map (\<lambda>x. x ^ n) xx) [0..<m])[0 := first_row a b N xx]"
    define M' where "M' = (replicate m (replicate (nat N) (0 :: real)))[0 := first_row a b N xx]"
    from legendre_polynomial_normalized_ok [OF 4, of a b s]
    obtain BASE s1 where seeded: "legendre_polynomial_normalized number_functions N a b s = Inr (BASE, s1)"
      "matrix_of s1 BASE = gs_rows a b N xx M [1..<m]"
      unfolding M_def xx_def m_def by blast
    from legendre_polynomial_normalized_unseeded_ok [OF 4, of a b s]
    obtain BASE' s2 where unseeded:
      "legendre_polynomial_normalized_unseeded number_functions N a b s = Inr (BASE', s2)"
      "matrix_of s2 BASE' = gs_rows a b N xx M' [1..<m]"
      unfolding M'_def xx_def m_def by blast
    have m: "0 < m" using 4 by (simp add: m_def)
    have len: "length M = m" "length M' = m" by (simp_all add: M_def M'_def)
    have "take 1 M = take 1 M'"
      using m by (cases m) (simp_all add: M_def M'_def take_Suc_conv_app_nth upt_conv_Cons)
    from gs_rows_cong [OF this, of a b N xx] len m
    have "gs_rows a b N xx M [1..<m] = gs_rows a b N xx M' [1..<m]" by simp
    then show ?thesis
      by (simp add: seeded unseeded)
  qed
qed

subsection \<open>The builder on three grid points\<close>

lemma simpson_scaled_3: "simpson_scaled [x, y, z] = [x, y * 4, z]"
  by (simp add: simpson_scaled_def scale_slice_def upt_rec)

lemma simpson_result_3:
  "simpson_result a b [x, y, z] 3 = (b - a) / 9 * (x + 4 * y + z)"
  by (simp add: simpson_result_def simpson_scaled_3)

lemma linspace_3: "linspace (-1) 1 3 = [-1, 0, 1]"
  by (simp add: linspace_def upt_rec)

lemma linspace_03: "linspace 0 3 3 = [0, 3 / 2, 3]"
  by (simp add: linspace_def upt_rec)

lemma first_row_odd:
  assumes "odd N" and "3 \<le> N"
  shows "first_row a b (int N) (linspace a b N)
           = replicate N (1 / sqrt ((b - a) * (real N - 1) / real N))"
  by (simp add: first_row_def simpson_result_ones [OF assms])

text \<open>
  C4. Row 0 is the constant \<open>1 / sqrt (b - a)\<close>. The code divides by the square root of what
  its quadrature returns for the constant 1, and that is \<open>(b - a) (N - 1) / N\<close>, not
  \<open>b - a\<close>: over \<open>[0, 3]\<close> with three samples row 0 is the constant \<open>1 / sqrt 2\<close>.
\<close>

theorem first_row_not_unit:
  "\<exists>BASE s'. legendre_polynomial_normalized 1 3 0 3 [] = Inr (BASE, s')
     \<and> matrix_of s' BASE = [[1 / sqrt 2, 1 / sqrt 2, 1 / sqrt 2]]
     \<and> 1 / sqrt 2 \<noteq> 1 / sqrt (3 - 0)"
proof -
  from builder_rows [of 3 1 0 3 "[]"]
  obtain BASE s' where r: "legendre_polynomial_normalized 1 3 0 3 [] = Inr (BASE, s')"
    "length (matrix_of s' BASE) = 1"
    "matrix_of s' BASE ! 0 = first_row 0 3 3 (linspace 0 3 3)"
    by auto
  have "first_row 0 3 3 (linspace 0 3 3) = [1 / sqrt 2, 1 / sqrt 2, 1 / sqrt 2]"
    by (simp add: first_row_def linspace_03 simpson_result_3 eval_nat_numeral)
  with r(2,3) have "matrix_of s' BASE = [[1 / sqrt 2, 1 / sqrt 2, 1 / sqrt 2]]"
    by (cases "matrix_of s' BASE") simp_all
  with r(1) show ?thesis by simp
qed

text \<open>Gram-Schmidt on the grid \<open>[-1, 0, 1]\<close>: the fourth monomial leaves nothing.\<close>

lemma orth_1:
  "orthogonalised (-1) 1 3 [-1, 0, 1] [[c, c, c]] 1 = [-1, 0, 1]"
  by (simp add: orthogonalised_def project_step_def simpson_result_3 Let_def)

lemma norm_1:
  "normalised (-1) 1 3 [-1, 0, 1] = [- (3 / 2), 0, 3 / 2]"
proof -
  have sq: "sqrt (4 / 9) = 2 / 3"
    by (rule real_sqrt_unique) (simp_all add: power2_eq_square)
  have n: "simpson_result (-1) 1 (map (\<lambda>x. x ^ 2) [-1, 0, 1]) 3 = 4 / 9"
    by (simp add: simpson_result_3)
  show ?thesis
    unfolding normalised_def n sq by simp
qed

lemma orth_2:
  assumes "c * c = 3 / 4"
  shows "orthogonalised (-1) 1 3 [-1, 0, 1] [[c, c, c], [- (3 / 2), 0, 3 / 2]] 2
           = [2 / 3, - (1 / 3), 2 / 3]"
  using assms
  by (simp add: orthogonalised_def project_step_def simpson_result_3 Let_def algebra_simps)

lemma orth_3:
  "orthogonalised (-1) 1 3 [-1, 0, 1] [[c, c, c], [- (3 / 2), 0, 3 / 2], [p, q, p]] 3 = [0, 0, 0]"
  by (simp add: orthogonalised_def project_step_def simpson_result_3 Let_def eval_nat_numeral)

text \<open>
  C7. Where the self-inner-product of step 4c is zero or negative the builder reports a
  degenerate basis. It does not: with four functions on three grid points over \<open>[-1, 1]\<close>
  the self-inner-product for the degree 3 is zero, and the builder returns a matrix.
\<close>

theorem degenerate_norm_unreported:
  "\<exists>BASE s'. legendre_polynomial_normalized 4 3 (-1) 1 [] = Inr (BASE, s')
     \<and> simpson_result (-1) 1
          (map (\<lambda>x. x ^ 2)
             (orthogonal_residual (-1) 1 3 (linspace (-1) 1 3) (take 3 (matrix_of s' BASE)) 3)) 3
         = 0"
proof -
  let ?xx = "[-1, 0, 1 :: real]"
  from builder_rows [of 3 4 "-1" 1 "[]"]
  obtain BASE s' where res: "legendre_polynomial_normalized 4 3 (-1) 1 [] = Inr (BASE, s')"
    and len: "length (matrix_of s' BASE) = 4"
    and lens: "\<forall>j<4. length (matrix_of s' BASE ! j) = 3"
    and row0: "matrix_of s' BASE ! 0 = first_row (-1) 1 3 ?xx"
    and rows: "\<forall>n. 1 \<le> n \<and> n < 4 \<longrightarrow>
        matrix_of s' BASE ! n
          = normalised (-1) 1 3 (orthogonal_residual (-1) 1 3 ?xx (take n (matrix_of s' BASE)) n)"
    by (auto simp: linspace_3)
  define G where "G = matrix_of s' BASE"
  define c where "c = 1 / sqrt (4 / 3 :: real)"
  have cc: "c * c = 3 / 4"
    by (simp add: c_def)
  have G0: "G ! 0 = [c, c, c]"
    unfolding G_def row0 by (simp add: first_row_def simpson_result_3 c_def)
  have resid: "orthogonal_residual (-1) 1 3 ?xx (take n G) n = orthogonalised (-1) 1 3 ?xx (take n G) n"
    for n
  proof (rule orthogonalised_eq_residual [symmetric], rule ballI)
    fix e assume "e \<in> set (take n G)"
    then obtain j where "j < 4" "e = G ! j"
      using len by (auto simp: in_set_conv_nth G_def)
    then show "length e = length ?xx" using lens by (simp add: G_def)
  qed
  have t1: "take 1 G = [[c, c, c]]"
    using len G0 by (cases G) (simp_all add: G_def)
  have rowG: "G ! n = normalised (-1) 1 3 (orthogonalised (-1) 1 3 ?xx (take n G) n)"
    if "1 \<le> n" "n < 4" for n
    using rows that unfolding G_def [symmetric] resid by blast
  have G1: "G ! 1 = [- (3 / 2), 0, 3 / 2]"
    using rowG [of 1] unfolding t1 orth_1 norm_1 by simp
  have t2: "take 2 G = [[c, c, c], [- (3 / 2), 0, 3 / 2]]"
    using len G0 G1 by (simp add: G_def [symmetric] take_Suc_conv_app_nth eval_nat_numeral)
  have "G ! 2 = normalised (-1) 1 3 [2 / 3, - (1 / 3), 2 / 3]"
    using rowG [of 2] unfolding t2 orth_2 [OF cc] by simp
  then obtain p q where G2: "G ! 2 = [p, q, p]"
    by (simp add: normalised_def)
  have t3: "take 3 G = [[c, c, c], [- (3 / 2), 0, 3 / 2], [p, q, p]]"
    using len G0 G1 G2 by (simp add: G_def [symmetric] take_Suc_conv_app_nth eval_nat_numeral)
  have "orthogonal_residual (-1) 1 3 ?xx (take 3 G) 3 = orthogonalised (-1) 1 3 ?xx (take 3 G) 3"
    by (rule resid)
  also have "\<dots> = [0, 0, 0]"
    unfolding t3 by (rule orth_3)
  finally have "orthogonal_residual (-1) 1 3 ?xx (take 3 G) 3 = [0, 0, 0]" .
  then show ?thesis
    using res by (simp add: G_def linspace_3 simpson_result_3)
qed

text \<open>
  C7, as the code has it. The builder has no check of the self-inner-product: with at least
  one function and one grid point it reports no error and returns a matrix of \<open>count\<close> rows
  of length \<open>N\<close>, whatever the self-inner-products are.
\<close>

theorem builder_reports_nothing:
  assumes "0 < N" and "0 < number_functions"
  shows "\<exists>BASE s'. legendre_polynomial_normalized number_functions N a b s = Inr (BASE, s')
           \<and> length (matrix_of s' BASE) = nat number_functions
           \<and> (\<forall>j<nat number_functions. length (matrix_of s' BASE ! j) = nat N)"
  using builder_rows [OF assms, of a b s] by blast

theorem builder_reports_nothing_witness:
  "\<exists>BASE s'. legendre_polynomial_normalized 4 3 (-1) 1 [] = Inr (BASE, s')
           \<and> length (matrix_of s' BASE) = 4
           \<and> length (matrix_of s' BASE ! 3) = 3"
proof -
  from builder_reports_nothing [of 3 4 "-1" 1 "[]"]
  obtain BASE s' where r: "legendre_polynomial_normalized 4 3 (-1) 1 [] = Inr (BASE, s')"
    "length (matrix_of s' BASE) = 4"
    "\<forall>j<4. length (matrix_of s' BASE ! j) = 3"
    by auto
  from r(3) have "length (matrix_of s' BASE ! 3) = 3" by simp
  with r(1,2) show ?thesis by blast
qed

end
